theory Spec2Isabelle
  imports Main "HOL-Library.Word"
begin

section \<open>The searchable, paginated post list (\<open>SearchablePosts\<close>)\<close>

text \<open>
  The component keeps three pieces of React state (\<open>searchQuery\<close>, \<open>currentPage\<close>,
  \<open>isLoading\<close>), derives the filtered and the displayed posts from them on every render,
  and starts a 2000 ms timer when the sentinel element scrolls into view. The model is a
  record of that state together with the pending timers of the event loop, one function
  per handler of the source, and a function from a state to the rendered elements.

  \<open>isLoading\<close> and \<open>hasMorePosts\<close> are constants of a render, and a handler reads the
  ones of the render that created it: \<open>setIsLoading\<close> changes the cell, not those
  constants. So the handlers that read them take two states, the state \<open>r\<close> that the last
  render read and the state \<open>s\<close> of the cells they write to. A render follows every
  event, so that the state between two events is the one on screen; the observer may
  deliver several entries in one callback, which are then handled within one event, with
  no render between them.
\<close>

subsection \<open>Strings\<close>

text \<open>
  A JavaScript string is a sequence of UTF-16 code units. \<open>lit\<close> embeds an ASCII literal
  of the source.
\<close>

type_synonym jsstring = "16 word list"

definition lit :: "string \<Rightarrow> jsstring" where
  "lit cs = map of_char cs"

text \<open>
  \<open>String.prototype.trim\<close> removes the code units of the ECMAScript productions
  WhiteSpace and LineTerminator from both ends.
\<close>

definition isWhiteSpace :: "16 word \<Rightarrow> bool" where
  "isWhiteSpace c =
     (c = 0x0009 \<or> c = 0x000A \<or> c = 0x000B \<or> c = 0x000C \<or> c = 0x000D \<or> c = 0x0020
      \<or> c = 0x00A0 \<or> c = 0x1680 \<or> (0x2000 \<le> c \<and> c \<le> 0x200A) \<or> c = 0x2028
      \<or> c = 0x2029 \<or> c = 0x202F \<or> c = 0x205F \<or> c = 0x3000 \<or> c = 0xFEFF)"

definition trim :: "jsstring \<Rightarrow> jsstring" where
  "trim s = rev (dropWhile isWhiteSpace (rev (dropWhile isWhiteSpace s)))"

text \<open>A number placed in JSX is rendered in decimal.\<close>

fun toString :: "nat \<Rightarrow> jsstring" where
  "toString n =
     (if n < 10 then [of_nat (48 + n)]
      else toString (n div 10) @ [of_nat (48 + n mod 10)])"

declare toString.simps [simp del]

subsection \<open>Data\<close>

record Post =
  path :: jsstring
  title :: jsstring
  description :: jsstring
  date :: jsstring
  author :: jsstring
  tags :: "jsstring list"
  image_opt :: "jsstring option"

text \<open>
  One entry of what \<open>fuse.search\<close> returns. The component reads \<open>item\<close> only; the
  score of the library is not represented.
\<close>

record FuseResult =
  item :: Post
  refIndex :: nat

text \<open>
  The three \<open>useState\<close> cells, and with them the timers that \<open>setTimeout\<close> has
  registered and that have not fired yet (the time each one is due, in ms) and the
  current time.
\<close>

record state =
  searchQuery :: jsstring
  currentPage :: int
  isLoading :: bool
  timers :: "nat list"
  clock :: nat

definition POSTS_PER_PAGE :: int where
  "POSTS_PER_PAGE = 4"

definition initial :: state where
  "initial = \<lparr>searchQuery = [], currentPage = 1, isLoading = False, timers = [], clock = 0\<rparr>"

subsection \<open>Derived values of a render\<close>

text \<open>
  \<open>fuse\<close> stands for \<open>fuse.search\<close> of the index built over \<open>posts\<close>: the library is
  not part of the repository and is a parameter of the model.
\<close>

definition filteredPosts :: "Post list \<Rightarrow> (jsstring \<Rightarrow> FuseResult list) \<Rightarrow> jsstring \<Rightarrow> Post list" where
  "filteredPosts posts fuse q = (if trim q = [] then posts else map item (fuse q))"

text \<open>
  \<open>xs.slice(0, end)\<close> for an integer \<open>end\<close>: a negative \<open>end\<close> counts from the end of
  the array, and the result never reaches past the array.
\<close>

definition slice0 :: "'a list \<Rightarrow> int \<Rightarrow> 'a list" where
  "slice0 xs e =
     (let len = int (length xs);
          final = (if e < 0 then max (len + e) 0 else min e len)
      in take (nat final) xs)"

definition displayedPosts :: "Post list \<Rightarrow> (jsstring \<Rightarrow> FuseResult list) \<Rightarrow> state \<Rightarrow> Post list" where
  "displayedPosts posts fuse s =
     (let endIndex = currentPage s * POSTS_PER_PAGE
      in slice0 (filteredPosts posts fuse (searchQuery s)) endIndex)"

definition hasMorePosts :: "Post list \<Rightarrow> (jsstring \<Rightarrow> FuseResult list) \<Rightarrow> state \<Rightarrow> bool" where
  "hasMorePosts posts fuse s =
     (length (displayedPosts posts fuse s) < length (filteredPosts posts fuse (searchQuery s)))"

subsection \<open>Handlers\<close>

text \<open>
  \<open>loadMorePosts\<close> up to its \<open>await\<close>: the guard, on the \<open>isLoading\<close> and
  \<open>hasMorePosts\<close> of the render \<open>r\<close> (the dependencies of its \<open>useCallback\<close>), then
  \<open>setIsLoading(true)\<close> and the timer of 2000 ms.
\<close>

definition loadMorePosts :: "Post list \<Rightarrow> (jsstring \<Rightarrow> FuseResult list) \<Rightarrow> state \<Rightarrow> state \<Rightarrow> state" where
  "loadMorePosts posts fuse r s =
     (if isLoading r \<or> \<not> hasMorePosts posts fuse r then s
      else s\<lparr>isLoading := True, timers := timers s @ [clock s + 2000]\<rparr>)"

text \<open>
  The rest of \<open>loadMorePosts\<close>, run when its timer fires:
  \<open>setCurrentPage((prev) => prev + 1); setIsLoading(false)\<close>.
\<close>

definition loadMorePosts_resume :: "state \<Rightarrow> state" where
  "loadMorePosts_resume s = s\<lparr>currentPage := currentPage s + 1, isLoading := False\<rparr>"

text \<open>
  The \<open>onChange\<close> callback given to \<open>useInView\<close>, created by the render \<open>r\<close> together
  with the \<open>loadMorePosts\<close> it calls.
\<close>

definition onChange :: "Post list \<Rightarrow> (jsstring \<Rightarrow> FuseResult list) \<Rightarrow> state \<Rightarrow> bool \<Rightarrow> state \<Rightarrow> state" where
  "onChange posts fuse r inView s =
     (if inView \<and> hasMorePosts posts fuse r \<and> \<not> isLoading r then loadMorePosts posts fuse r s
      else s)"

text \<open>
  The input's \<open>onChange\<close> calls \<open>setSearchQuery\<close>; in the render that follows, the
  \<open>useMemo\<close> whose dependency is \<open>searchQuery\<close> calls \<open>setCurrentPage(1)\<close> when the
  query differs from the one of the render before.
\<close>

definition setSearchQuery :: "jsstring \<Rightarrow> state \<Rightarrow> state" where
  "setSearchQuery v s = s\<lparr>searchQuery := v\<rparr>"

definition resetPagination :: "jsstring \<Rightarrow> state \<Rightarrow> state" where
  "resetPagination prevQuery s =
     (if searchQuery s \<noteq> prevQuery then s\<lparr>currentPage := 1\<rparr> else s)"

definition inputChange :: "jsstring \<Rightarrow> state \<Rightarrow> state" where
  "inputChange v s = resetPagination (searchQuery s) (setSearchQuery v s)"

text \<open>
  Time passing by \<open>dt\<close> ms: every timer that is due by then fires, in the order of
  registration, and leaves the list of pending timers. Timers that are due at the same
  time fire one after the other, with no other event between them.
\<close>

definition elapse :: "nat \<Rightarrow> state \<Rightarrow> state" where
  "elapse dt s =
     (let t = clock s + dt;
          due = filter (\<lambda>d. d \<le> t) (timers s);
          s' = s\<lparr>timers := filter (\<lambda>d. \<not> d \<le> t) (timers s), clock := t\<rparr>
      in fold (\<lambda>_. loadMorePosts_resume) due s')"

text \<open>
  The events. \<open>InView b\<close> is a callback of the observer with one entry, \<open>InViewBatch bs\<close>
  one with the entries \<open>bs\<close>: \<open>onChange\<close> is called once for each, every time with the
  closure of the render on screen.
\<close>

datatype event = InputChange jsstring | InView bool | InViewBatch "bool list" | Elapse nat

fun step :: "Post list \<Rightarrow> (jsstring \<Rightarrow> FuseResult list) \<Rightarrow> event \<Rightarrow> state \<Rightarrow> state" where
  "step posts fuse (InputChange v) s = inputChange v s"
| "step posts fuse (InView b) s = onChange posts fuse s b s"
| "step posts fuse (InViewBatch bs) s = fold (onChange posts fuse s) bs s"
| "step posts fuse (Elapse dt) s = elapse dt s"

definition run :: "Post list \<Rightarrow> (jsstring \<Rightarrow> FuseResult list) \<Rightarrow> event list \<Rightarrow> state \<Rightarrow> state" where
  "run posts fuse evs s = fold (step posts fuse) evs s"

subsection \<open>The rendered list\<close>

text \<open>
  What the component returns below the search input, in order: the "no results" text,
  one article per displayed post, the loading spinner, the sentinel with its counter text,
  and the end message.
\<close>

datatype view =
    NoResults jsstring
  | Article Post
  | LoadingSpinner
  | Sentinel jsstring
  | EndMessage jsstring

definition render :: "Post list \<Rightarrow> (jsstring \<Rightarrow> FuseResult list) \<Rightarrow> state \<Rightarrow> view list" where
  "render posts fuse s =
     (let filtered = filteredPosts posts fuse (searchQuery s);
          displayed = displayedPosts posts fuse s;
          hasMore = hasMorePosts posts fuse s
      in (if length filtered = 0 \<and> trim (searchQuery s) \<noteq> []
          then [NoResults (lit ''No articles found for '' @ searchQuery s
                           @ lit ''. Try different keywords.'')]
          else [])
         @ map Article displayed
         @ (if isLoading s then [LoadingSpinner] else [])
         @ (if hasMore \<and> \<not> isLoading s
            then [Sentinel (toString (length displayed) @ lit '' of ''
                            @ toString (length filtered) @ lit '' articles'')]
            else [])
         @ (if \<not> hasMore \<and> length displayed > 0 \<and> trim (searchQuery s) = []
            then [EndMessage (lit ''You'' @ [0x22] @ lit ''ve reached the end! That'' @ [0x27]
                              @ lit ''s all '' @ toString (length filtered) @ lit '' articles.'')]
            else []))"

fun is_Sentinel :: "view \<Rightarrow> bool" where
  "is_Sentinel (Sentinel _) = True"
| "is_Sentinel _ = False"

subsection \<open>Reachable states\<close>

text \<open>
  What holds of the state after every sequence of events: the page is at least 1, timers
  are pending exactly while \<open>isLoading\<close> is set, and the pending timers are all due at
  the same time.
\<close>

definition consistent :: "state \<Rightarrow> bool" where
  "consistent s =
     (1 \<le> currentPage s
      \<and> (if isLoading s then timers s \<noteq> [] else timers s = [])
      \<and> list_all (\<lambda>d. d = hd (timers s)) (timers s))"

subsection \<open>Sample data\<close>

text \<open>
  Six of the posts of the repository, cut down to path and title, and an index that finds
  nothing.
\<close>

definition sample :: "string \<Rightarrow> string \<Rightarrow> Post" where
  "sample p t =
     \<lparr>path = lit p, title = lit t, description = [], date = lit ''2024-02-15'',
      author = lit ''Tech Blogger'', tags = [lit ''react''], image_opt = None\<rparr>"

definition samples :: "Post list" where
  "samples =
     [sample ''graphql-vs-rest'' ''GraphQL vs REST'',
      sample ''web-performance-optimization'' ''Web Performance Optimization'',
      sample ''react-server-components'' ''React Server Components'',
      sample ''nodejs-performance-optimization'' ''Node.js Performance Optimization'',
      sample ''modern-css-techniques'' ''Modern CSS Techniques'',
      sample ''typescript-best-practices'' ''TypeScript Best Practices'']"

definition noFuse :: "jsstring \<Rightarrow> FuseResult list" where
  "noFuse q = []"

text \<open>An index that answers every query with all six posts, the last one first.\<close>

definition lastFirstFuse :: "jsstring \<Rightarrow> FuseResult list" where
  "lastFirstFuse q = rev (map (\<lambda>(i, p). \<lparr>item = p, refIndex = i\<rparr>) (enumerate 0 samples))"

section \<open>Properties\<close>

subsection \<open>Blank queries\<close>

lemma dropWhile_all_iff: "(\<forall>x \<in> set (dropWhile P xs). P x) \<longleftrightarrow> dropWhile P xs = []"
proof
  assume all: "\<forall>x \<in> set (dropWhile P xs). P x"
  show "dropWhile P xs = []"
  proof (rule ccontr)
    assume ne: "dropWhile P xs \<noteq> []"
    then have "\<not> P (hd (dropWhile P xs))" by (rule hd_dropWhile)
    moreover from ne have "hd (dropWhile P xs) \<in> set (dropWhile P xs)" by simp
    ultimately show False using all by blast
  qed
next
  assume "dropWhile P xs = []"
  then show "\<forall>x \<in> set (dropWhile P xs). P x" by (auto dest: set_dropWhileD)
qed

lemma trim_blank_iff: "trim q = [] \<longleftrightarrow> (\<forall>c \<in> set q. isWhiteSpace c)"
proof -
  have "trim q = [] \<longleftrightarrow> (\<forall>x \<in> set (dropWhile isWhiteSpace q). isWhiteSpace x)"
    by (simp add: trim_def)
  also have "\<dots> \<longleftrightarrow> dropWhile isWhiteSpace q = []" by (rule dropWhile_all_iff)
  also have "\<dots> \<longleftrightarrow> (\<forall>c \<in> set q. isWhiteSpace c)" by simp
  finally show ?thesis .
qed

text \<open>
  C2. For every post collection and every query that is empty or consists of white space
  only, the filtered posts are the input collection itself: the same elements in the
  same order.
\<close>

theorem blank_query_keeps_all_posts:
  "\<forall>c \<in> set q. isWhiteSpace c \<Longrightarrow> filteredPosts posts fuse q = posts"
  by (simp add: filteredPosts_def trim_blank_iff)

theorem blank_query_keeps_all_posts_witness:
  "isWhiteSpace 0x20 \<and> isWhiteSpace 0x09 \<and> isWhiteSpace 0x3000
   \<and> filteredPosts samples noFuse [0x20, 0x09, 0x3000] = samples"
proof -
  have h: "\<forall>c \<in> set [0x20, 0x09, 0x3000 :: 16 word]. isWhiteSpace c"
    by (simp add: isWhiteSpace_def)
  from h blank_query_keeps_all_posts [OF h, of samples noFuse] show ?thesis by simp
qed

subsection \<open>The invariant of the reachable states\<close>

lemma slice0_nonneg: "0 \<le> e \<Longrightarrow> slice0 xs e = take (nat e) xs"
  by (simp add: slice0_def Let_def min_def)

lemma consistent_initial: "consistent initial"
  by (simp add: consistent_def initial_def)

lemma consistent_inputChange: "consistent s \<Longrightarrow> consistent (inputChange v s)"
  by (auto simp: consistent_def inputChange_def resetPagination_def setSearchQuery_def)

lemma batch_closed:
  "isLoading r \<or> \<not> hasMorePosts posts fuse r \<Longrightarrow> fold (onChange posts fuse r) bs s = s"
  by (induction bs arbitrary: s) (auto simp: onChange_def loadMorePosts_def)

lemma filter_no_True: "True \<notin> set bs \<Longrightarrow> filter (\<lambda>b. b) bs = []"
  by (induction bs) auto

lemma batch_open:
  assumes "\<not> isLoading r" and "hasMorePosts posts fuse r"
  shows "fold (onChange posts fuse r) bs s
         = (if True \<in> set bs
            then s\<lparr>isLoading := True,
                   timers := timers s @ replicate (length (filter (\<lambda>b. b) bs)) (clock s + 2000)\<rparr>
            else s)"
proof (induction bs arbitrary: s)
  case Nil
  show ?case by simp
next
  case (Cons b bs)
  show ?case
  proof (cases b)
    case True
    from assms have 1: "onChange posts fuse r True s
                        = s\<lparr>isLoading := True, timers := timers s @ [clock s + 2000]\<rparr>"
      by (simp add: onChange_def loadMorePosts_def)
    show ?thesis
      using True by (simp add: Cons.IH 1 filter_no_True)
  next
    case False
    then have "onChange posts fuse r b s = s" by (simp add: onChange_def)
    with False show ?thesis by (simp add: Cons.IH)
  qed
qed

lemma consistent_batch:
  assumes "consistent s"
  shows "consistent (fold (onChange posts fuse s) bs s)"
proof (cases "isLoading s \<or> \<not> hasMorePosts posts fuse s")
  case True
  then show ?thesis using assms by (simp add: batch_closed)
next
  case False
  then have open_s: "\<not> isLoading s" "hasMorePosts posts fuse s" by simp_all
  then have t: "timers s = []" using assms by (simp add: consistent_def)
  show ?thesis
  proof (cases "True \<in> set bs")
    case True
    then have "filter (\<lambda>b. b) bs \<noteq> []" by (auto simp: filter_empty_conv)
    then have n: "0 < length (filter (\<lambda>b. b) bs)" by simp
    with assms True show ?thesis
      by (simp add: batch_open [OF open_s] consistent_def t list_all_iff)
  next
    case False
    then show ?thesis using assms by (simp add: batch_open [OF open_s])
  qed
qed

lemma consistent_onChange: "consistent s \<Longrightarrow> consistent (onChange posts fuse s b s)"
  using consistent_batch [of s posts fuse "[b]"] by simp

lemma filter_all_same:
  "list_all (\<lambda>d. d = x) ds \<Longrightarrow> filter P ds = (if P x then ds else [])"
  by (induction ds) auto

lemma fold_resume:
  "fold (\<lambda>_. loadMorePosts_resume) ds s
   = (if ds = [] then s
      else s\<lparr>currentPage := currentPage s + int (length ds), isLoading := False\<rparr>)"
  by (induction ds arbitrary: s) (auto simp: loadMorePosts_resume_def)

lemma consistent_elapse:
  assumes "consistent s"
  shows "consistent (elapse dt s)"
proof -
  from assms have same: "list_all (\<lambda>d. d = hd (timers s)) (timers s)"
    by (simp add: consistent_def)
  show ?thesis
  proof (cases "timers s = []")
    case True
    with assms show ?thesis
      by (auto simp: consistent_def elapse_def Let_def split: if_splits)
  next
    case pending: False
    show ?thesis
    proof (cases "hd (timers s) \<le> clock s + dt")
      case True
      with assms pending show ?thesis
        by (simp add: consistent_def elapse_def Let_def filter_all_same [OF same] fold_resume)
    next
      case False
      with assms pending show ?thesis
        by (simp add: consistent_def elapse_def Let_def filter_all_same [OF same])
    qed
  qed
qed

lemma consistent_step: "consistent s \<Longrightarrow> consistent (step posts fuse ev s)"
  by (cases ev)
    (simp_all add: consistent_inputChange consistent_onChange consistent_batch consistent_elapse)

lemma consistent_fold: "consistent s \<Longrightarrow> consistent (fold (step posts fuse) evs s)"
  by (induction evs arbitrary: s) (simp_all add: consistent_step)

lemma consistent_run: "consistent (run posts fuse evs initial)"
  by (simp add: run_def consistent_fold consistent_initial)

lemmas eval_defs =
  run_def onChange_def loadMorePosts_def loadMorePosts_resume_def elapse_def inputChange_def
  resetPagination_def setSearchQuery_def hasMorePosts_def displayedPosts_def filteredPosts_def
  slice0_def trim_def POSTS_PER_PAGE_def initial_def samples_def noFuse_def Let_def

subsection \<open>The displayed window\<close>

text \<open>
  C3. After every sequence of events from the initial state, the displayed posts are the
  first \<open>currentPage * POSTS_PER_PAGE\<close> of the filtered posts, in their order (the page
  being at least 1, so that \<open>slice\<close> never counts from the end); so they are no more
  than the filtered posts and no more than \<open>currentPage * POSTS_PER_PAGE\<close>, and
  \<open>hasMorePosts\<close> holds exactly when fewer posts are displayed than were filtered.
\<close>

theorem visible_window:
  "let s = run posts fuse evs initial;
       matched = filteredPosts posts fuse (searchQuery s);
       visible = displayedPosts posts fuse s
   in 1 \<le> currentPage s
      \<and> visible = take (nat (currentPage s * POSTS_PER_PAGE)) matched
      \<and> length visible \<le> length matched
      \<and> int (length visible) \<le> currentPage s * POSTS_PER_PAGE
      \<and> hasMorePosts posts fuse s = (length visible < length matched)"
proof -
  define s where "s = run posts fuse evs initial"
  define matched where "matched = filteredPosts posts fuse (searchQuery s)"
  have p: "1 \<le> currentPage s"
    using consistent_run [of posts fuse evs] by (simp add: s_def consistent_def)
  then have e: "0 \<le> currentPage s * POSTS_PER_PAGE" by (simp add: POSTS_PER_PAGE_def)
  have v: "displayedPosts posts fuse s = take (nat (currentPage s * POSTS_PER_PAGE)) matched"
    by (simp add: displayedPosts_def Let_def slice0_nonneg [OF e] matched_def)
  have l1: "length (displayedPosts posts fuse s) \<le> length matched"
    by (simp add: v)
  have l2: "int (length (displayedPosts posts fuse s)) \<le> currentPage s * POSTS_PER_PAGE"
    using e by (simp add: v)
  have h: "hasMorePosts posts fuse s = (length (displayedPosts posts fuse s) < length matched)"
    by (simp add: hasMorePosts_def matched_def)
  from p v l1 l2 h show ?thesis
    by (simp only: Let_def s_def matched_def)
qed

theorem visible_window_witness:
  "currentPage (run samples noFuse [InView True, Elapse 2000] initial) = 2
   \<and> displayedPosts samples noFuse (run samples noFuse [InView True, Elapse 2000] initial)
       = take 8 samples
   \<and> \<not> hasMorePosts samples noFuse (run samples noFuse [InView True, Elapse 2000] initial)"
proof -
  have p: "currentPage (run samples noFuse [InView True, Elapse 2000] initial) = 2"
    by (simp add: eval_defs)
  have q: "filteredPosts samples noFuse
             (searchQuery (run samples noFuse [InView True, Elapse 2000] initial)) = samples"
    by (simp add: eval_defs)
  have l: "length samples = 6" by (simp add: samples_def)
  from visible_window [of samples noFuse "[InView True, Elapse 2000]"] show ?thesis
    by (simp add: Let_def p q l POSTS_PER_PAGE_def)
qed

subsection \<open>Changing the query\<close>

text \<open>
  C4. Whatever the page was, a change of the query (the input delivers a value that
  differs from the current query) leaves the state with the new query and with
  \<open>currentPage\<close> 1, so that the displayed posts are the first four of the newly
  filtered posts; \<open>isLoading\<close> and the pending timers stay as they were.
\<close>

theorem query_change_resets_page:
  "v \<noteq> searchQuery s \<Longrightarrow>
     (let s' = step posts fuse (InputChange v) s
      in searchQuery s' = v \<and> currentPage s' = 1 \<and> isLoading s' = isLoading s
         \<and> timers s' = timers s
         \<and> displayedPosts posts fuse s' = take 4 (filteredPosts posts fuse v))"
  by (simp add: inputChange_def setSearchQuery_def resetPagination_def displayedPosts_def
      slice0_nonneg POSTS_PER_PAGE_def)

theorem query_change_resets_page_witness:
  "lit ''css'' \<noteq> searchQuery (run samples lastFirstFuse [InView True, Elapse 2000] initial)
   \<and> currentPage (run samples lastFirstFuse [InView True, Elapse 2000] initial) = 2
   \<and> currentPage (step samples lastFirstFuse (InputChange (lit ''css''))
        (run samples lastFirstFuse [InView True, Elapse 2000] initial)) = 1
   \<and> displayedPosts samples lastFirstFuse (step samples lastFirstFuse (InputChange (lit ''css''))
        (run samples lastFirstFuse [InView True, Elapse 2000] initial)) = take 4 (rev samples)"
proof -
  let ?s = "run samples lastFirstFuse [InView True, Elapse 2000] initial"
  have h: "lit ''css'' \<noteq> searchQuery ?s" by (simp add: eval_defs lit_def)
  have p: "currentPage ?s = 2" by (simp add: eval_defs)
  have f: "filteredPosts samples lastFirstFuse (lit ''css'') = rev samples"
    by (simp add: filteredPosts_def trim_def isWhiteSpace_def lit_def lastFirstFuse_def samples_def)
  from h p query_change_resets_page [OF h, of samples lastFirstFuse] show ?thesis
    by (simp add: Let_def f)
qed

subsection \<open>Revealing the next page\<close>

text \<open>
  C6. When the render on screen has no more posts to show, the reveal operation does
  nothing, be it called directly or through the proximity signal, with one entry or with
  several: the state that comes back is the state that went in (query, page, loading flag
  and timers), so no reveal is started.
\<close>

theorem reveal_noop_without_more:
  "\<not> hasMorePosts posts fuse r \<Longrightarrow>
     loadMorePosts posts fuse r s = s \<and> onChange posts fuse r b s = s
     \<and> step posts fuse (InView b) r = r \<and> step posts fuse (InViewBatch bs) r = r"
  by (simp add: loadMorePosts_def onChange_def batch_closed)

theorem reveal_noop_without_more_witness:
  "\<not> hasMorePosts samples noFuse (run samples noFuse [InView True, Elapse 2000] initial)
   \<and> currentPage (step samples noFuse (InView True)
        (run samples noFuse [InView True, Elapse 2000] initial)) = 2
   \<and> isLoading (step samples noFuse (InView True)
        (run samples noFuse [InView True, Elapse 2000] initial)) = False"
proof -
  let ?s = "run samples noFuse [InView True, Elapse 2000] initial"
  have h: "\<not> hasMorePosts samples noFuse ?s" by (simp add: eval_defs)
  have p: "currentPage ?s = 2" "isLoading ?s = False" by (simp_all add: eval_defs)
  from h p reveal_noop_without_more [OF h, of ?s True "[True]"] show ?thesis by simp
qed

lemma idle_no_timers: "consistent s \<Longrightarrow> \<not> isLoading s \<Longrightarrow> timers s = []"
  by (simp add: consistent_def)

lemma start_reveal:
  assumes "\<not> isLoading s" and "hasMorePosts posts fuse s"
  shows "onChange posts fuse s True s
         = s\<lparr>isLoading := True, timers := timers s @ [clock s + 2000]\<rparr>"
  using assms by (simp add: onChange_def loadMorePosts_def)

lemma elapse_before_due:
  assumes "timers s = [d]" and "clock s + dt < d"
  shows "elapse dt s = s\<lparr>clock := clock s + dt\<rparr>"
  using assms by (simp add: elapse_def Let_def)

lemma elapse_due:
  assumes "timers s = [d]" and "d \<le> clock s + dt"
  shows "elapse dt s
         = s\<lparr>currentPage := currentPage s + 1, isLoading := False, timers := [],
              clock := clock s + dt\<rparr>"
  using assms by (simp add: elapse_def Let_def loadMorePosts_resume_def)

text \<open>
  C5. In a reachable state that is not loading and has more posts to show, the proximity
  signal sets \<open>isLoading\<close> and leaves the page as it is; while less than 2000 ms have
  passed the page is still the same and \<open>isLoading\<close> still set; when 2000 ms have
  passed the page is one more than before and \<open>isLoading\<close> is cleared.
\<close>

theorem reveal_after_delay:
  assumes "s = run posts fuse evs initial"
    and "\<not> isLoading s" and "hasMorePosts posts fuse s"
  shows "let s1 = step posts fuse (InView True) s
         in isLoading s1 \<and> currentPage s1 = currentPage s
            \<and> (\<forall>dt<2000. let s2 = step posts fuse (Elapse dt) s1
                          in isLoading s2 \<and> currentPage s2 = currentPage s)
            \<and> (let s3 = step posts fuse (Elapse 2000) s1
                in \<not> isLoading s3 \<and> currentPage s3 = currentPage s + 1)"
proof -
  have t: "timers s = []"
    using assms(1,2) consistent_run [of posts fuse evs] by (simp add: idle_no_timers)
  define s1 where "s1 = step posts fuse (InView True) s"
  have s1: "s1 = s\<lparr>isLoading := True, timers := [clock s + 2000]\<rparr>"
    using start_reveal [OF assms(2,3)] t by (simp add: s1_def)
  have a: "isLoading s1" "currentPage s1 = currentPage s" "timers s1 = [clock s1 + 2000]"
    by (simp_all add: s1)
  have b: "isLoading (step posts fuse (Elapse dt) s1)
           \<and> currentPage (step posts fuse (Elapse dt) s1) = currentPage s" if "dt < 2000" for dt
    using that a by (simp add: elapse_before_due [OF a(3)])
  have c: "\<not> isLoading (step posts fuse (Elapse 2000) s1)
           \<and> currentPage (step posts fuse (Elapse 2000) s1) = currentPage s + 1"
    using a by (simp add: elapse_due [OF a(3)])
  from a b c show ?thesis
    unfolding Let_def s1_def by blast
qed

theorem reveal_after_delay_witness:
  "\<not> isLoading initial \<and> hasMorePosts samples noFuse initial
   \<and> isLoading (step samples noFuse (InView True) initial)
   \<and> currentPage (step samples noFuse (Elapse 1999) (step samples noFuse (InView True) initial)) = 1
   \<and> currentPage (step samples noFuse (Elapse 2000) (step samples noFuse (InView True) initial)) = 2"
proof -
  have r: "initial = run samples noFuse [] initial" by (simp add: run_def)
  have i: "\<not> isLoading initial" by (simp add: initial_def)
  have h: "hasMorePosts samples noFuse initial" by (simp add: eval_defs)
  have p: "currentPage initial = 1" by (simp add: initial_def)
  from i h p reveal_after_delay [OF r i h] show ?thesis
    by (simp add: Let_def)
qed

text \<open>
  C1. The guard against a second reveal tests the \<open>isLoading\<close> of the render on screen,
  not the cell that the first call has just set. When one callback of the observer
  delivers two entries in view, both calls of \<open>onChange\<close> pass the guard: with the six
  sample posts, from the initial render, two timers are pending afterwards, and when the
  2000 ms have passed the page is 3, two more than before and not one. Only with a render
  between the two signals is the second one ignored: one timer, and the page is 2.
\<close>

theorem double_signal_starts_two_reveals:
  "timers (run samples noFuse [InViewBatch [True, True]] initial) = [2000, 2000]
   \<and> currentPage (run samples noFuse [InViewBatch [True, True], Elapse 2000] initial) = 3
   \<and> timers (run samples noFuse [InView True, InView True] initial) = [2000]
   \<and> currentPage (run samples noFuse [InView True, InView True, Elapse 2000] initial) = 2"
  by (simp add: eval_defs)

subsection \<open>What is rendered\<close>

text \<open>
  C10. Every render of a state that is loading has no sentinel among its elements, and
  with it no counter, which is the sentinel's text: a sentinel is rendered exactly when
  there are more posts to show and the state is not loading, and its text is then the
  counter "X of Y articles". Once such a render is on screen, there is no sentinel for
  the observer, and a proximity signal handled with the closure of that render, with one
  entry or with several, changes nothing.
\<close>

theorem loading_render_has_no_sentinel:
  "(isLoading r \<longrightarrow>
      (\<forall>v \<in> set (render posts fuse r). \<not> is_Sentinel v)
      \<and> onChange posts fuse r b s = s
      \<and> step posts fuse (InView b) r = r
      \<and> step posts fuse (InViewBatch bs) r = r)
   \<and> ((\<exists>v \<in> set (render posts fuse r). is_Sentinel v)
        \<longleftrightarrow> hasMorePosts posts fuse r \<and> \<not> isLoading r)
   \<and> (\<forall>t. Sentinel t \<in> set (render posts fuse r) \<longrightarrow>
          t = toString (length (displayedPosts posts fuse r)) @ lit '' of ''
              @ toString (length (filteredPosts posts fuse (searchQuery r))) @ lit '' articles'')"
proof -
  have ignored: "onChange posts fuse r b s = s \<and> step posts fuse (InView b) r = r
                 \<and> step posts fuse (InViewBatch bs) r = r" if "isLoading r"
    using that by (simp add: onChange_def batch_closed)
  have hidden: "\<forall>v \<in> set (render posts fuse r). \<not> is_Sentinel v" if "isLoading r"
    using that by (auto simp: render_def Let_def)
  have shown: "(\<exists>v \<in> set (render posts fuse r). is_Sentinel v)
               \<longleftrightarrow> hasMorePosts posts fuse r \<and> \<not> isLoading r"
    by (auto simp: render_def Let_def)
  have counter: "\<forall>t. Sentinel t \<in> set (render posts fuse r) \<longrightarrow>
          t = toString (length (displayedPosts posts fuse r)) @ lit '' of ''
              @ toString (length (filteredPosts posts fuse (searchQuery r))) @ lit '' articles''"
    by (auto simp: render_def Let_def)
  from ignored hidden shown counter show ?thesis by blast
qed

theorem loading_render_has_no_sentinel_witness:
  "isLoading (step samples noFuse (InView True) initial)
   \<and> render samples noFuse (step samples noFuse (InView True) initial)
       = map Article (take 4 samples) @ [LoadingSpinner]
   \<and> list_all (\<lambda>v. \<not> is_Sentinel v)
        (render samples noFuse (step samples noFuse (InView True) initial))
   \<and> timers (step samples noFuse (InViewBatch [True, True])
        (step samples noFuse (InView True) initial)) = [2000]"
proof -
  let ?r = "step samples noFuse (InView True) initial"
  have l: "isLoading ?r" by (simp add: eval_defs)
  have t: "timers ?r = [2000]" by (simp add: eval_defs)
  have v: "render samples noFuse ?r = map Article (take 4 samples) @ [LoadingSpinner]"
    by (simp add: render_def eval_defs)
  from l t v loading_render_has_no_sentinel [of ?r samples noFuse True ?r "[True, True]"]
  show ?thesis
    by (simp add: list_all_iff)
qed

text \<open>
  Between \<open>setIsLoading(true)\<close> and the render that follows it, the render on screen is
  still the one before: with the six sample posts, after the first entry of a callback
  has been handled, \<open>isLoading\<close> is set and a timer is pending, while the sentinel of the
  initial render is still among the rendered elements; the second entry of the callback
  comes from it and is not ignored.
\<close>

theorem sentinel_on_screen_before_render:
  "isLoading (onChange samples noFuse initial True initial)
   \<and> timers (onChange samples noFuse initial True initial) = [2000]
   \<and> Sentinel (lit ''4 of 6 articles'') \<in> set (render samples noFuse initial)
   \<and> timers (onChange samples noFuse initial True (onChange samples noFuse initial True initial))
       = [2000, 2000]"
  by (simp add: render_def eval_defs toString.simps lit_def)

text \<open>
  C8. With six posts and the empty query of the initial state: four posts are displayed,
  there are more posts to show, and the rendered list is the first four articles and the
  sentinel, whose counter reads "4 of 6 articles". After the proximity signal and 2000 ms,
  the page is 2, all six posts are displayed, there are no more posts to show, and the
  rendered list is the six articles and the end message, which names the total of 6.
\<close>

theorem six_posts_scenario:
  assumes "length posts = 6"
  shows "length (displayedPosts posts fuse initial) = 4
     \<and> hasMorePosts posts fuse initial
     \<and> render posts fuse initial
         = map Article (take 4 posts) @ [Sentinel (lit ''4 of 6 articles'')]
     \<and> (let s1 = run posts fuse [InView True, Elapse 2000] initial
         in currentPage s1 = 2 \<and> \<not> isLoading s1
            \<and> length (displayedPosts posts fuse s1) = 6
            \<and> \<not> hasMorePosts posts fuse s1
            \<and> render posts fuse s1
                = map Article posts
                  @ [EndMessage (lit ''You'' @ [0x22] @ lit ''ve reached the end! That'' @ [0x27]
                                 @ lit ''s all 6 articles.'')])"
proof -
  have q: "trim (searchQuery initial) = []" by (simp add: initial_def trim_def)
  have f0: "filteredPosts posts fuse (searchQuery initial) = posts"
    by (simp add: filteredPosts_def q)
  have c0: "currentPage initial = 1" by (simp add: initial_def)
  have d0: "displayedPosts posts fuse initial = take 4 posts"
    by (simp add: displayedPosts_def f0 c0 slice0_nonneg POSTS_PER_PAGE_def)
  have h0: "hasMorePosts posts fuse initial"
    using assms by (simp add: hasMorePosts_def f0 d0)
  have n4: "toString 4 = lit ''4''" and n6: "toString 6 = lit ''6''"
    by (simp_all add: toString.simps lit_def)
  have i0: "\<not> isLoading initial" by (simp add: initial_def)
  have r0: "render posts fuse initial
            = map Article (take 4 posts) @ [Sentinel (lit ''4 of 6 articles'')]"
    using assms h0 i0 by (simp add: render_def Let_def f0 d0 q n4 n6) (simp add: lit_def)
  define s1 where "s1 = run posts fuse [InView True, Elapse 2000] initial"
  have s1: "s1 = \<lparr>searchQuery = [], currentPage = 2, isLoading = False, timers = [], clock = 2000\<rparr>"
    using h0 unfolding s1_def
    by (simp add: run_def onChange_def loadMorePosts_def elapse_def Let_def
        loadMorePosts_resume_def) (simp add: initial_def)
  have q1: "trim (searchQuery s1) = []" by (simp add: s1 trim_def)
  have f1: "filteredPosts posts fuse (searchQuery s1) = posts"
    by (simp add: filteredPosts_def q1)
  have p1: "currentPage s1 = 2" "\<not> isLoading s1" by (simp_all add: s1)
  have d1: "displayedPosts posts fuse s1 = posts"
    using assms by (simp add: displayedPosts_def f1 p1 slice0_nonneg POSTS_PER_PAGE_def)
  have h1: "\<not> hasMorePosts posts fuse s1"
    by (simp add: hasMorePosts_def f1 d1)
  have r1: "render posts fuse s1
            = map Article posts
              @ [EndMessage (lit ''You'' @ [0x22] @ lit ''ve reached the end! That'' @ [0x27]
                             @ lit ''s all 6 articles.'')]"
    using assms h1 p1 by (auto simp: render_def Let_def f1 d1 q1 n6 lit_def)
  from assms d0 h0 r0 p1 d1 h1 r1 show ?thesis
    unfolding Let_def s1_def by simp
qed

theorem six_posts_scenario_witness:
  "length samples = 6
   \<and> render samples noFuse initial
       = map Article (take 4 samples) @ [Sentinel (lit ''4 of 6 articles'')]
   \<and> currentPage (run samples noFuse [InView True, Elapse 2000] initial) = 2
   \<and> length (displayedPosts samples noFuse (run samples noFuse [InView True, Elapse 2000] initial)) = 6"
proof -
  have l: "length samples = 6" by (simp add: samples_def)
  from l six_posts_scenario [OF l, of noFuse] show ?thesis
    by (simp add: Let_def)
qed

text \<open>
  Not modelled: what \<open>fuse.search\<close> matches and how it ranks (the library is outside the
  repository), and the unmounting of the component, for which the source has no code.
\<close>

end
